theory Spec2Isabelle
  imports Main "HOL-Library.AList"
begin

section \<open>Day 23: the longest hike, reduced to a graph of junctions\<close>

text \<open>
  The development embeds \<^verbatim>\<open>src/day23/day23.py\<close>. Exceptions are values of the
  type \<open>error\<close>, and every function that can raise returns \<open>error + 'a\<close>. A cell is a
  pair (row, column) of Python integers. A dictionary is an association list in insertion
  order; an assignment \<^verbatim>\<open>d[k] = v\<close> is \<open>AList.update\<close>, which overwrites in place when
  the key is present and appends otherwise, as a Python dict does. The limits of the
  interpreter (recursion depth, memory) are not part of the model.
\<close>

datatype error = KeyError | IndexError | OverflowError

type_synonym cell = "int \<times> int"
type_synonym grid = "string list"
type_synonym 'n adjacency = "('n \<times> ('n \<times> int) list) list"
type_synonym graph = "cell adjacency"

subsection \<open>The values a search returns\<close>

text \<open>
  \<^verbatim>\<open>max_steps\<close> starts as \<^verbatim>\<open>-float("inf")\<close> and otherwise holds an int, so a search
  returns either minus infinity or an integer.
\<close>

datatype steps = NegInf | Steps int

text \<open>
  \<^verbatim>\<open>dfs(...) + graph[curr][nxt]\<close>: two ints add exactly. When the left operand is the
  float minus infinity, Python first converts the int weight to a double and raises
  OverflowError when it does not fit; a double holds every integer of absolute value
  below \<open>2^1024 - 2^970\<close> after rounding.
\<close>

definition float_ok :: "int \<Rightarrow> bool" where
  "float_ok w \<longleftrightarrow> \<bar>w\<bar> < 2 ^ 1024 - 2 ^ 970"

fun py_add :: "steps \<Rightarrow> int \<Rightarrow> error + steps" where
  "py_add NegInf w = (if float_ok w then Inr NegInf else Inl OverflowError)"
| "py_add (Steps n) w = Inr (Steps (n + w))"

fun steps_less :: "steps \<Rightarrow> steps \<Rightarrow> bool" where
  "steps_less NegInf NegInf = False"
| "steps_less NegInf (Steps b) = True"
| "steps_less (Steps a) NegInf = False"
| "steps_less (Steps a) (Steps b) = (a < b)"

text \<open>\<^verbatim>\<open>max(a, b)\<close> keeps its first argument unless the second is strictly greater.\<close>

definition py_max :: "steps \<Rightarrow> steps \<Rightarrow> steps" where
  "py_max a b = (if steps_less a b then b else a)"

subsection \<open>The backtracking search\<close>

text \<open>
  \<^verbatim>\<open>dfs\<close> mutates one shared set \<^verbatim>\<open>visited\<close>; the model passes the set in and returns
  it with the result; a node is any value that can be a dictionary key (the driver uses
  cells). \<open>dfs_loop\<close> is the \<^verbatim>\<open>for nxt in graph[curr]\<close> loop over the remaining
  items of the inner dictionary, with the running \<^verbatim>\<open>max_steps\<close>. \<^verbatim>\<open>graph[curr]\<close> raises
  KeyError on a missing key, and so does \<^verbatim>\<open>visited.remove(curr)\<close> on a missing element.
  The source's variable \<^verbatim>\<open>curr\<close> is written \<open>cur\<close>.
\<close>

function dfs :: "'n adjacency \<Rightarrow> 'n \<Rightarrow> 'n \<Rightarrow> 'n set \<Rightarrow> error + (steps \<times> 'n set)"
  and dfs_loop :: "'n adjacency \<Rightarrow> 'n \<Rightarrow> ('n \<times> int) list \<Rightarrow> steps \<Rightarrow> 'n set
      \<Rightarrow> error + (steps \<times> 'n set)"
where
  "dfs graph cur finish visited =
     (if cur = finish then Inr (Steps 0, visited)
      else case map_of graph cur of
        None \<Rightarrow> Inl KeyError
      | Some nbrs \<Rightarrow>
          (case dfs_loop graph finish nbrs NegInf (insert cur visited) of
             Inl e \<Rightarrow> Inl e
           | Inr (max_steps, visited') \<Rightarrow>
               if cur \<in> visited' then Inr (max_steps, visited' - {cur})
               else Inl KeyError))"
| "dfs_loop graph finish [] max_steps visited = Inr (max_steps, visited)"
| "dfs_loop graph finish ((nxt, w) # rest) max_steps visited =
     (if nxt \<in> visited then dfs_loop graph finish rest max_steps visited
      else case dfs graph nxt finish visited of
        Inl e \<Rightarrow> Inl e
      | Inr (r, visited') \<Rightarrow>
          (case py_add r w of
             Inl e \<Rightarrow> Inl e
           | Inr s \<Rightarrow> dfs_loop graph finish rest (py_max max_steps s) visited'))"
  by pat_completeness auto

text \<open>
  The loop continues with the set the recursive call left behind, so termination needs to
  know that set: a call that returns leaves \<open>visited\<close> without \<open>cur\<close>, and the loop leaves
  it unchanged.
\<close>

lemma dfs_visited_dom:
  "dfs_dfs_loop_dom (Inl (graph, cur, finish, visited)) \<Longrightarrow>
     dfs graph cur finish visited = Inr (r, visited') \<Longrightarrow>
     visited' = (if cur = finish then visited else visited - {cur})"
  "dfs_dfs_loop_dom (Inr (graph, finish, nbrs, max_steps, visited)) \<Longrightarrow>
     dfs_loop graph finish nbrs max_steps visited = Inr (r, visited') \<Longrightarrow>
     visited' = visited"
proof (induction graph cur finish visited and graph finish nbrs max_steps visited
    arbitrary: r visited' and r visited' rule: dfs_dfs_loop.pinduct)
  case (1 graph cur finish visited)
  show ?case
  proof (cases "cur = finish")
    case True
    with 1 show ?thesis by (simp add: dfs.psimps)
  next
    case False
    with 1(1,3) obtain nbrs where nb: "map_of graph cur = Some nbrs"
      by (auto simp: dfs.psimps split: option.splits)
    with 1(1,3) False obtain m v where
      lp: "dfs_loop graph finish nbrs NegInf (insert cur visited) = Inr (m, v)"
      and res: "visited' = v - {cur}"
      by (auto simp: dfs.psimps split: sum.splits if_splits)
    from 1(2)[OF False nb lp] have "v = insert cur visited" .
    with res False show ?thesis by auto
  qed
next
  case (2 graph finish max_steps visited)
  then show ?case by (simp add: dfs_loop.psimps)
next
  case (3 graph finish nxt w rest max_steps visited)
  show ?case
  proof (cases "nxt \<in> visited")
    case True
    with 3(1,5) have "dfs_loop graph finish rest max_steps visited = Inr (r, visited')"
      by (simp add: dfs_loop.psimps)
    from 3(2)[OF True this] show ?thesis .
  next
    case False
    with 3(1,5) obtain x y s where
      d: "dfs graph nxt finish visited = Inr (x, y)" and a: "py_add x w = Inr s"
      and l: "dfs_loop graph finish rest (py_max max_steps s) y = Inr (r, visited')"
      by (auto simp: dfs_loop.psimps split: sum.splits)
    from 3(3)[OF False d] False have y: "y = visited" by (auto split: if_splits)
    from 3(4)[OF False d refl a l] y show ?thesis by simp
  qed
qed

definition unvisited :: "'n adjacency \<Rightarrow> 'n set \<Rightarrow> nat" where
  "unvisited graph visited = card (fst ` set graph - visited)"

lemma unvisited_insert:
  assumes "map_of graph cur = Some nbrs" and "cur \<notin> visited"
  shows "unvisited graph (insert cur visited) < unvisited graph visited"
proof -
  from assms(1) have "cur \<in> fst ` set graph"
    by (metis map_of_eq_None_iff option.distinct(1))
  with assms(2) have "fst ` set graph - insert cur visited \<subset> fst ` set graph - visited"
    by auto
  then show ?thesis unfolding unvisited_def by (intro psubset_card_mono) auto
qed

termination dfs
proof (relation "inv_image (less_than <*lex*> less_than)
    (\<lambda>x. case x of
       Inl (graph, cur, finish, visited) \<Rightarrow>
         (2 * unvisited graph visited + (if cur \<in> visited then 2 else 0), 0)
     | Inr (graph, finish, nbrs, max_steps, visited) \<Rightarrow>
         (2 * unvisited graph visited + 1, length nbrs))", goal_cases)
  case 1
  then show ?case by auto
next
  case (2 graph cur finish visited nbrs)
  then show ?case
    using unvisited_insert[of graph cur nbrs visited] by (auto simp: insert_absorb)
next
  case (3 graph finish nxt w rest max_steps visited)
  then show ?case by simp
next
  case (4 graph finish nxt w rest max_steps visited)
  then show ?case by simp
next
  case (5 graph finish nxt w rest max_steps visited b x y ba)
  then have "y = visited" using dfs_visited_dom(1)[of graph nxt finish visited x y]
    by (auto split: if_splits)
  then show ?case by simp
qed

declare dfs.simps [simp del]

text \<open>
  \<^verbatim>\<open>get_max_steps\<close> executes \<^verbatim>\<open>def dfs(graph, curr, finish, visited=set())\<close> in its own
  body, so the default set is created anew by every call of \<^verbatim>\<open>get_max_steps\<close>, and the one
  call \<^verbatim>\<open>dfs(graph, start, finish)\<close> starts from that empty set. \<open>get_max_steps_run\<close>
  also returns the set as the search leaves it.
\<close>

definition get_max_steps_run :: "'n adjacency \<Rightarrow> 'n \<Rightarrow> 'n \<Rightarrow> error + (steps \<times> 'n set)" where
  "get_max_steps_run graph start finish = dfs graph start finish {}"

definition get_max_steps :: "'n adjacency \<Rightarrow> 'n \<Rightarrow> 'n \<Rightarrow> error + steps" where
  "get_max_steps graph start finish =
     (case get_max_steps_run graph start finish of
        Inl e \<Rightarrow> Inl e
      | Inr (r, visited) \<Rightarrow> Inr r)"

subsection \<open>The grid\<close>

text \<open>
  A grid is a list of rows, a row a string. \<^verbatim>\<open>xs[i]\<close> counts a negative index from the
  end and raises IndexError outside \<open>-len \<dots> len - 1\<close>.
\<close>

definition py_index :: "'a list \<Rightarrow> int \<Rightarrow> error + 'a" where
  "py_index xs i =
     (if 0 \<le> i \<and> i < int (length xs) then Inr (xs ! nat i)
      else if - int (length xs) \<le> i \<and> i < 0 then Inr (xs ! nat (int (length xs) + i))
      else Inl IndexError)"

text \<open>\<^verbatim>\<open>grid[cell[0]][cell[1]]\<close>\<close>

definition cell_at :: "grid \<Rightarrow> cell \<Rightarrow> error + char" where
  "cell_at grid c =
     (case py_index grid (fst c) of Inl e \<Rightarrow> Inl e | Inr row \<Rightarrow> py_index row (snd c))"

text \<open>
  \<^verbatim>\<open>0 <= cell[0] < len(grid) and 0 <= cell[1] < len(grid[0])\<close>. The second half is
  evaluated only when the first holds, and then the grid has a row 0.
\<close>

definition is_valid_loc :: "grid \<Rightarrow> cell \<Rightarrow> bool" where
  "is_valid_loc grid c \<longleftrightarrow>
     0 \<le> fst c \<and> fst c < int (length grid) \<and> 0 \<le> snd c \<and> snd c < int (length (grid ! 0))"

text \<open>
  The two scanning loops of \<^verbatim>\<open>get_start_finish\<close>: the index of the first \<^verbatim>\<open>'.'\<close> of the
  row, and the initial value 0 when the loop ends without a \<^verbatim>\<open>break\<close>.
\<close>

fun first_open :: "string \<Rightarrow> int \<Rightarrow> int" where
  "first_open [] idx = 0"
| "first_open (i # row) idx = (if i = CHR ''.'' then idx else first_open row (idx + 1))"

definition get_start_finish :: "grid \<Rightarrow> error + (cell \<times> cell)" where
  "get_start_finish grid =
     (case py_index grid 0 of
        Inl e \<Rightarrow> Inl e
      | Inr row0 \<Rightarrow>
          (case py_index grid (- 1) of
             Inl e \<Rightarrow> Inl e
           | Inr rowN \<Rightarrow>
               Inr ((0, first_open row0 0), (int (length grid) - 1, first_open rowN 0))))"

text \<open>
  The loop \<^verbatim>\<open>for dx, dy in [...]\<close> shared by both step functions: a neighbour is appended
  when it is a valid location and its character is not \<^verbatim>\<open>'#'\<close>.
\<close>

fun nxt_loop :: "grid \<Rightarrow> cell \<Rightarrow> (int \<times> int) list \<Rightarrow> cell list \<Rightarrow> error + cell list" where
  "nxt_loop grid cell [] res = Inr res"
| "nxt_loop grid cell ((dx, dy) # ds) res =
     (if is_valid_loc grid (fst cell + dx, snd cell + dy) then
        (case cell_at grid (fst cell + dx, snd cell + dy) of
           Inl e \<Rightarrow> Inl e
         | Inr ch \<Rightarrow>
             nxt_loop grid cell ds
               (if ch \<noteq> CHR ''#'' then res @ [(fst cell + dx, snd cell + dy)] else res))
      else nxt_loop grid cell ds res)"

definition get_nxt_cells_p1 :: "grid \<Rightarrow> cell \<Rightarrow> error + cell list" where
  "get_nxt_cells_p1 grid cell =
     (case cell_at grid cell of
        Inl e \<Rightarrow> Inl e
      | Inr ch \<Rightarrow>
          if ch = CHR ''>'' \<and> is_valid_loc grid (fst cell, snd cell + 1)
            then Inr [(fst cell, snd cell + 1)]
          else if ch = CHR ''<'' \<and> is_valid_loc grid (fst cell, snd cell - 1)
            then Inr [(fst cell, snd cell - 1)]
          else if ch = CHR ''^'' \<and> is_valid_loc grid (fst cell - 1, snd cell)
            then Inr [(fst cell - 1, snd cell)]
          else if ch = CHR ''v'' \<and> is_valid_loc grid (fst cell + 1, snd cell)
            then Inr [(fst cell + 1, snd cell)]
          else nxt_loop grid cell [(0, 1), (0, - 1), (1, 0), (- 1, 0)] [])"

definition get_nxt_cells_p2 :: "grid \<Rightarrow> cell \<Rightarrow> error + cell list" where
  "get_nxt_cells_p2 grid cell = nxt_loop grid cell [(0, 1), (0, - 1), (1, 0), (- 1, 0)] []"

subsection \<open>The points of interest\<close>

text \<open>The inner counting loop of \<^verbatim>\<open>get_option_points\<close>.\<close>

fun count_neighbors :: "grid \<Rightarrow> cell \<Rightarrow> (int \<times> int) list \<Rightarrow> int \<Rightarrow> error + int" where
  "count_neighbors grid cell [] neighbors = Inr neighbors"
| "count_neighbors grid cell ((dx, dy) # ds) neighbors =
     (if is_valid_loc grid (fst cell + dx, snd cell + dy) then
        (case cell_at grid (fst cell + dx, snd cell + dy) of
           Inl e \<Rightarrow> Inl e
         | Inr ch \<Rightarrow>
             count_neighbors grid cell ds (if ch \<noteq> CHR ''#'' then neighbors + 1 else neighbors))
      else count_neighbors grid cell ds neighbors)"

text \<open>The loop over the columns \<open>ys\<close> of row \<open>x\<close>, and the loop over the rows \<open>xs\<close>.\<close>

fun option_cols :: "grid \<Rightarrow> int \<Rightarrow> int list \<Rightarrow> cell list \<Rightarrow> error + cell list" where
  "option_cols grid x [] points = Inr points"
| "option_cols grid x (y # ys) points =
     (case cell_at grid (x, y) of
        Inl e \<Rightarrow> Inl e
      | Inr ch \<Rightarrow>
          if ch = CHR ''#'' then option_cols grid x ys points
          else
            (case count_neighbors grid (x, y) [(1, 0), (- 1, 0), (0, 1), (0, - 1)] 0 of
               Inl e \<Rightarrow> Inl e
             | Inr neighbors \<Rightarrow>
                 option_cols grid x ys (if neighbors \<ge> 3 then points @ [(x, y)] else points)))"

fun option_rows :: "grid \<Rightarrow> int list \<Rightarrow> cell list \<Rightarrow> error + cell list" where
  "option_rows grid [] points = Inr points"
| "option_rows grid (x # xs) points =
     (case option_cols grid x [0..int (length (grid ! 0)) - 1] points of
        Inl e \<Rightarrow> Inl e
      | Inr points' \<Rightarrow> option_rows grid xs points')"

definition get_option_points :: "grid \<Rightarrow> cell \<Rightarrow> cell \<Rightarrow> error + cell list" where
  "get_option_points grid start finish =
     option_rows grid [0..int (length grid) - 1] [start, finish]"

subsection \<open>Building the graph\<close>

text \<open>
  The stack of \<^verbatim>\<open>build_graph\<close> is kept with its top first: \<^verbatim>\<open>stack.append\<close> is a cons and
  \<^verbatim>\<open>stack.pop()\<close> takes the head. \<open>push_cells\<close> is the \<^verbatim>\<open>for xx, yy in ...\<close> loop.
\<close>

fun push_cells :: "int \<Rightarrow> cell list \<Rightarrow> (int \<times> cell) list \<Rightarrow> cell set
    \<Rightarrow> (int \<times> cell) list \<times> cell set" where
  "push_cells steps [] stack seen = (stack, seen)"
| "push_cells steps (c # cs) stack seen =
     (if c \<notin> seen then push_cells steps cs ((steps + 1, c) # stack) (insert c seen)
      else push_cells steps cs stack seen)"

definition nxt_cells :: "grid \<Rightarrow> int \<Rightarrow> cell \<Rightarrow> error + cell list" where
  "nxt_cells grid p cell =
     (if p = 1 then get_nxt_cells_p1 grid cell else get_nxt_cells_p2 grid cell)"

text \<open>\<^verbatim>\<open>graph[(sx, sy)][(nx, ny)] = steps\<close>\<close>

definition set_edge :: "graph \<Rightarrow> cell \<Rightarrow> cell \<Rightarrow> int \<Rightarrow> error + graph" where
  "set_edge graph s n steps =
     (case map_of graph s of
        None \<Rightarrow> Inl KeyError
      | Some d \<Rightarrow> Inr (AList.update s (AList.update n steps d) graph))"

subsection \<open>What the step functions return\<close>

text \<open>
  A location is passable when it is valid and its character is not \<^verbatim>\<open>'#'\<close>. The loop
  of the step functions returns exactly the passable neighbours, after what was there.
\<close>

definition passable :: "grid \<Rightarrow> cell \<Rightarrow> bool" where
  "passable grid c \<longleftrightarrow>
     is_valid_loc grid c \<and> (\<exists>ch. cell_at grid c = Inr ch \<and> ch \<noteq> CHR ''#'')"

lemma nxt_loop_set:
  "nxt_loop grid cell ds res = Inr cs \<Longrightarrow>
     set cs = set res \<union>
       {(fst cell + dx, snd cell + dy) | dx dy.
          (dx, dy) \<in> set ds \<and> passable grid (fst cell + dx, snd cell + dy)}"
proof (induction grid cell ds res rule: nxt_loop.induct)
  case (1 grid cell res)
  then show ?case by simp
next
  case (2 grid cell dx dy ds res)
  let ?n = "(fst cell + dx, snd cell + dy)"
  let ?T = "\<lambda>ds. {(fst cell + dx, snd cell + dy) | dx dy.
          (dx, dy) \<in> set ds \<and> passable grid (fst cell + dx, snd cell + dy)}"
  have split: "?T ((dx, dy) # ds) = (if passable grid ?n then {?n} else {}) \<union> ?T ds"
    by auto
  show ?case
  proof (cases "is_valid_loc grid ?n")
    case False
    then have "\<not> passable grid ?n" by (simp add: passable_def)
    with False 2(2,3) split show ?thesis by simp
  next
    case True
    with 2(3) obtain ch where ch: "cell_at grid ?n = Inr ch"
      by (cases "cell_at grid ?n") simp_all
    from 2(3) True ch
    have "nxt_loop grid cell ds (if ch \<noteq> CHR ''#'' then res @ [?n] else res) = Inr cs"
      by simp
    from 2(1)[OF True ch this]
    have "set cs = set (if ch \<noteq> CHR ''#'' then res @ [?n] else res) \<union> ?T ds" .
    moreover from True ch have "passable grid ?n \<longleftrightarrow> ch \<noteq> CHR ''#''"
      by (simp add: passable_def)
    ultimately show ?thesis unfolding split by auto
  qed
qed

lemma get_nxt_cells_p2_set:
  assumes "get_nxt_cells_p2 grid cell = Inr cs"
  shows "set cs = {(fst cell + dx, snd cell + dy) | dx dy.
          (dx, dy) \<in> {(0, 1), (0, - 1), (1, 0), (- 1, 0)}
            \<and> passable grid (fst cell + dx, snd cell + dy)}"
proof -
  from assms have "nxt_loop grid cell [(0, 1), (0, - 1), (1, 0), (- 1, 0)] [] = Inr cs"
    by (simp only: get_nxt_cells_p2_def)
  from nxt_loop_set[OF this] show ?thesis by simp
qed

lemma get_nxt_cells_p2_valid:
  "get_nxt_cells_p2 grid cell = Inr cs \<Longrightarrow> c \<in> set cs \<Longrightarrow> is_valid_loc grid c"
  by (auto simp: get_nxt_cells_p2_set passable_def)


lemma get_nxt_cells_p1_cases:
  assumes "get_nxt_cells_p1 grid cell = Inr cs"
  obtains t where "is_valid_loc grid t" and "cs = [t]"
  | "get_nxt_cells_p2 grid cell = Inr cs"
proof -
  from assms obtain ch where ch: "cell_at grid cell = Inr ch"
    by (cases "cell_at grid cell") (simp_all add: get_nxt_cells_p1_def)
  let ?r = "ch = CHR ''>'' \<and> is_valid_loc grid (fst cell, snd cell + 1)"
  let ?l = "ch = CHR ''<'' \<and> is_valid_loc grid (fst cell, snd cell - 1)"
  let ?u = "ch = CHR ''^'' \<and> is_valid_loc grid (fst cell - 1, snd cell)"
  let ?d = "ch = CHR ''v'' \<and> is_valid_loc grid (fst cell + 1, snd cell)"
  show thesis
  proof (cases "?r \<or> ?l \<or> ?u \<or> ?d")
    case True
    with assms[unfolded get_nxt_cells_p1_def ch sum.case]
    have "\<exists>t. is_valid_loc grid t \<and> cs = [t]"
      by (auto simp del: nxt_loop.simps split: if_splits)
    with that(1) show ?thesis by auto
  next
    case False
    then have "get_nxt_cells_p1 grid cell = get_nxt_cells_p2 grid cell"
      unfolding get_nxt_cells_p1_def get_nxt_cells_p2_def ch sum.case
      by (auto simp del: nxt_loop.simps)
    with assms that(2) show ?thesis by simp
  qed
qed

lemma nxt_cells_valid:
  assumes "nxt_cells grid p cell = Inr cs" and "c \<in> set cs"
  shows "is_valid_loc grid c"
proof (cases "p = 1")
  case True
  with assms(1) have "get_nxt_cells_p1 grid cell = Inr cs" by (simp add: nxt_cells_def)
  then show ?thesis using assms(2)
    by (cases rule: get_nxt_cells_p1_cases) (auto dest: get_nxt_cells_p2_valid)
next
  case False
  with assms show ?thesis by (simp add: nxt_cells_def get_nxt_cells_p2_valid)
qed


subsection \<open>The walk from one point\<close>

text \<open>
  Every cell pushed is a valid location that was not seen, so the unseen valid locations,
  counted twice, plus the height of the stack decrease with every iteration of the
  \<^verbatim>\<open>while stack\<close> loop.
\<close>

lemma finite_valid: "finite {c. is_valid_loc grid c}"
proof -
  have "{c. is_valid_loc grid c} \<subseteq> {0..int (length grid)} \<times> {0..int (length (grid ! 0))}"
    by (auto simp: is_valid_loc_def)
  then show ?thesis by (rule finite_subset) simp
qed

definition unseen :: "grid \<Rightarrow> cell set \<Rightarrow> nat" where
  "unseen grid seen = card ({c. is_valid_loc grid c} - seen)"

lemma push_cells_measure:
  "push_cells steps cs stack seen = (stack', seen') \<Longrightarrow> \<forall>c \<in> set cs. is_valid_loc grid c \<Longrightarrow>
     2 * unseen grid seen' + length stack' \<le> 2 * unseen grid seen + length stack"
proof (induction steps cs stack seen rule: push_cells.induct)
  case (1 steps stack seen)
  then show ?case by simp
next
  case (2 steps c cs stack seen)
  show ?case
  proof (cases "c \<in> seen")
    case True
    with 2 show ?thesis by simp
  next
    case False
    from 2(4) have "c \<in> {c. is_valid_loc grid c}" by simp
    with False have "{c. is_valid_loc grid c} - insert c seen \<subset> {c. is_valid_loc grid c} - seen"
      by auto
    then have "unseen grid (insert c seen) < unseen grid seen"
      unfolding unseen_def by (intro psubset_card_mono) (auto simp: finite_valid)
    moreover from 2(1) False 2(3,4)
    have "2 * unseen grid seen' + length stack'
            \<le> 2 * unseen grid (insert c seen) + length ((steps + 1, c) # stack)"
      by simp
    ultimately show ?thesis by simp
  qed
qed

text \<open>
  The \<^verbatim>\<open>while stack\<close> loop of \<^verbatim>\<open>build_graph\<close> for the start point \<open>s\<close>, on the graph
  built so far.
\<close>

function walk :: "grid \<Rightarrow> cell list \<Rightarrow> int \<Rightarrow> cell \<Rightarrow> graph \<Rightarrow> (int \<times> cell) list \<Rightarrow> cell set
    \<Rightarrow> error + graph" where
  "walk grid points p s graph [] seen = Inr graph"
| "walk grid points p s graph ((steps, n) # stack) seen =
     (if steps \<noteq> 0 \<and> n \<in> set points then
        (case set_edge graph s n steps of
           Inl e \<Rightarrow> Inl e
         | Inr graph' \<Rightarrow> walk grid points p s graph' stack seen)
      else
        (case nxt_cells grid p n of
           Inl e \<Rightarrow> Inl e
         | Inr cs \<Rightarrow>
             (case push_cells steps cs stack seen of
                (stack', seen') \<Rightarrow> walk grid points p s graph stack' seen')))"
  by pat_completeness auto
termination
proof (relation "measure (\<lambda>(grid, points, p, s, graph, stack, seen).
    2 * unseen grid seen + length stack)", goal_cases)
  case 1
  then show ?case by simp
next
  case (2 grid points p s graph steps n stack seen graph')
  then show ?case by simp
next
  case (3 grid points p s graph steps n stack seen cs stack' seen')
  from push_cells_measure[OF 3(3)[symmetric], of grid] nxt_cells_valid[OF 3(2)]
  show ?case by auto
qed

text \<open>The loop \<^verbatim>\<open>for sx, sy in points\<close> over the remaining start points.\<close>

fun walk_all :: "grid \<Rightarrow> cell list \<Rightarrow> int \<Rightarrow> cell list \<Rightarrow> graph \<Rightarrow> error + graph" where
  "walk_all grid points p [] graph = Inr graph"
| "walk_all grid points p (s # ss) graph =
     (case walk grid points p s graph [(0, s)] {s} of
        Inl e \<Rightarrow> Inl e
      | Inr graph' \<Rightarrow> walk_all grid points p ss graph')"

text \<open>
  \<^verbatim>\<open>graph = {p: {} for p in points}\<close> inserts the points in order, a repeated point keeping
  its first position.
\<close>

definition build_graph :: "grid \<Rightarrow> cell list \<Rightarrow> int \<Rightarrow> error + graph" where
  "build_graph grid points p =
     walk_all grid points p points (fold (\<lambda>q. AList.update q []) points [])"

subsection \<open>The driver\<close>

text \<open>The computation of \<^verbatim>\<open>driver\<close> on the lines read, up to the two values it prints.\<close>

definition driver :: "grid \<Rightarrow> error + (steps \<times> steps)" where
  "driver lines =
     (case get_start_finish lines of Inl e \<Rightarrow> Inl e | Inr (start, finish) \<Rightarrow>
      case get_option_points lines start finish of Inl e \<Rightarrow> Inl e | Inr points \<Rightarrow>
      case build_graph lines points 1 of Inl e \<Rightarrow> Inl e | Inr graph1 \<Rightarrow>
      case build_graph lines points 2 of Inl e \<Rightarrow> Inl e | Inr graph2 \<Rightarrow>
      case get_max_steps graph1 start finish of Inl e \<Rightarrow> Inl e | Inr p1 \<Rightarrow>
      case get_max_steps graph2 start finish of Inl e \<Rightarrow> Inl e | Inr p2 \<Rightarrow>
      Inr (p1, p2))"

section \<open>Paths in a graph\<close>

text \<open>
  The notions the statements about the search use. An edge is an item \<open>(b, w)\<close> of the
  inner dictionary stored under \<open>a\<close>. A path from \<open>a\<close> is the list of its steps, each
  the node stepped to and the weight of the edge taken; it is simple when no node occurs
  twice, the first one included.
\<close>

definition edge :: "'n adjacency \<Rightarrow> 'n \<Rightarrow> 'n \<Rightarrow> int \<Rightarrow> bool" where
  "edge graph a b w =
     (case map_of graph a of None \<Rightarrow> False | Some nbrs \<Rightarrow> (b, w) \<in> set nbrs)"

fun is_path :: "'n adjacency \<Rightarrow> 'n \<Rightarrow> ('n \<times> int) list \<Rightarrow> 'n \<Rightarrow> bool" where
  "is_path graph a [] b = (a = b)"
| "is_path graph a ((n, w) # ps) b = (edge graph a n w \<and> is_path graph n ps b)"

definition simple_path :: "'n adjacency \<Rightarrow> 'n \<Rightarrow> ('n \<times> int) list \<Rightarrow> 'n \<Rightarrow> bool" where
  "simple_path graph a ps b = (is_path graph a ps b \<and> distinct (a # map fst ps))"

definition weight :: "('n \<times> int) list \<Rightarrow> int" where
  "weight ps = sum_list (map snd ps)"

text \<open>
  A graph over its node set: every edge leads to a key of the outer dictionary. The
  weights fit a double, as every corridor length of a grid does.
\<close>

definition closed :: "'n adjacency \<Rightarrow> bool" where
  "closed graph = (\<forall>(k, nbrs) \<in> set graph. \<forall>(n, w) \<in> set nbrs. n \<in> fst ` set graph)"

definition weights_ok :: "'n adjacency \<Rightarrow> bool" where
  "weights_ok graph = (\<forall>(k, nbrs) \<in> set graph. \<forall>(n, w) \<in> set nbrs. float_ok w)"

text \<open>The simple paths from \<open>a\<close> to \<open>b\<close> that avoid the nodes of \<open>visited\<close>.\<close>

definition hikes :: "'n adjacency \<Rightarrow> 'n set \<Rightarrow> 'n \<Rightarrow> 'n \<Rightarrow> ('n \<times> int) list set" where
  "hikes graph visited a b =
     {ps. simple_path graph a ps b \<and> set (a # map fst ps) \<inter> visited = {}}"

text \<open>The weights of the paths that start with an item of \<open>nbrs\<close>.\<close>

definition via :: "'n adjacency \<Rightarrow> 'n set \<Rightarrow> ('n \<times> int) list \<Rightarrow> 'n \<Rightarrow> int set" where
  "via graph visited nbrs finish =
     {w + weight ps | n w ps. (n, w) \<in> set nbrs \<and> ps \<in> hikes graph visited n finish}"

definition targets_ok :: "'n adjacency \<Rightarrow> ('n \<times> int) list \<Rightarrow> bool" where
  "targets_ok graph nbrs = (\<forall>(n, w) \<in> set nbrs. n \<in> fst ` set graph \<and> float_ok w)"

text \<open>Minus infinity lies below every integer; \<open>py_max\<close> is the maximum of this order.\<close>

instantiation steps :: linorder
begin

definition less_eq_steps :: "steps \<Rightarrow> steps \<Rightarrow> bool" where
  "a \<le> b \<longleftrightarrow> \<not> steps_less b a"

definition less_steps :: "steps \<Rightarrow> steps \<Rightarrow> bool" where
  "a < b \<longleftrightarrow> steps_less a b"

instance
proof
  fix x y z :: steps
  show "(x < y) = (x \<le> y \<and> \<not> y \<le> x)"
    by (cases x; cases y) (auto simp: less_eq_steps_def less_steps_def)
  show "x \<le> x" by (cases x) (auto simp: less_eq_steps_def)
  show "x \<le> y \<Longrightarrow> y \<le> z \<Longrightarrow> x \<le> z"
    by (cases x; cases y; cases z) (auto simp: less_eq_steps_def)
  show "x \<le> y \<Longrightarrow> y \<le> x \<Longrightarrow> x = y"
    by (cases x; cases y) (auto simp: less_eq_steps_def)
  show "x \<le> y \<or> y \<le> x"
    by (cases x; cases y) (auto simp: less_eq_steps_def)
qed

end

definition greatest :: "steps \<Rightarrow> steps set \<Rightarrow> bool" where
  "greatest r S \<longleftrightarrow> r \<in> S \<and> (\<forall>s \<in> S. s \<le> r)"

text \<open>The two graphs of the examples below.\<close>

definition triangle :: graph where
  "triangle =
     [((0, 1), [((1, 1), 3), ((2, 1), 10)]),
      ((1, 1), [((0, 1), 3), ((2, 1), 5)]),
      ((2, 1), [((1, 1), 5)])]"

definition two_regions :: graph where
  "two_regions =
     [((0, 1), [((1, 1), 3)]),
      ((1, 1), [((0, 1), 3)]),
      ((2, 1), [])]"

section \<open>The search returns the longest simple path\<close>

text \<open>
  A search that returns has restored the visited set: \<^verbatim>\<open>visited.remove(curr)\<close> undoes
  \<^verbatim>\<open>visited.add(curr)\<close>, and the loop leaves the set as it found it.
\<close>

lemma dfs_visited:
  "dfs graph cur finish visited = Inr (r, visited') \<Longrightarrow>
     visited' = (if cur = finish then visited else visited - {cur})"
  "dfs_loop graph finish nbrs max_steps visited = Inr (r, visited') \<Longrightarrow> visited' = visited"
proof (induction graph cur finish visited and graph finish nbrs max_steps visited
    arbitrary: r visited' and r visited' rule: dfs_dfs_loop.induct)
  case (1 graph cur finish visited)
  show ?case
  proof (cases "cur = finish")
    case True
    with 1(2) show ?thesis by (simp add: dfs.simps)
  next
    case False
    with 1(2) obtain nbrs m v where nb: "map_of graph cur = Some nbrs"
      and lp: "dfs_loop graph finish nbrs NegInf (insert cur visited) = Inr (m, v)"
      and res: "visited' = v - {cur}"
      by (auto simp: dfs.simps split: option.splits sum.splits if_splits)
    from 1(1)[OF False nb lp] res False show ?thesis by auto
  qed
next
  case (2 graph finish max_steps visited)
  then show ?case by simp
next
  case (3 graph finish nxt w rest max_steps visited)
  show ?case
  proof (cases "nxt \<in> visited")
    case True
    with 3(1,4) show ?thesis by simp
  next
    case False
    with 3(4) obtain x y s where
      d: "dfs graph nxt finish visited = Inr (x, y)" and a: "py_add x w = Inr s"
      and l: "dfs_loop graph finish rest (py_max max_steps s) y = Inr (r, visited')"
      by (auto split: sum.splits)
    from 3(2)[OF False d] False have "y = visited" by (auto split: if_splits)
    with 3(3)[OF False d refl a l] show ?thesis by simp
  qed
qed

lemma steps_le_simps [simp]:
  "NegInf \<le> r" "Steps a \<le> Steps b \<longleftrightarrow> a \<le> b" "r \<le> NegInf \<longleftrightarrow> r = NegInf"
  by (cases r; auto simp: less_eq_steps_def)+

lemma py_max_eq_max: "py_max a b = max a b"
  by (auto simp: py_max_def max_def less_steps_def[symmetric])

lemma is_path_end: "is_path graph a ps b \<Longrightarrow> ps \<noteq> [] \<Longrightarrow> b \<in> fst ` set ps"
  by (induction graph a ps b rule: is_path.induct) (auto, force)

lemma hikes_finish: "finish \<notin> visited \<Longrightarrow> hikes graph visited finish finish = {[]}"
proof -
  assume nv: "finish \<notin> visited"
  have "ps = []" if "simple_path graph finish ps finish" for ps
  proof (rule ccontr)
    assume "ps \<noteq> []"
    with that have "finish \<in> fst ` set ps" by (auto simp: simple_path_def dest: is_path_end)
    with that show False by (auto simp: simple_path_def)
  qed
  with nv show ?thesis by (auto simp: hikes_def simple_path_def)
qed

lemma hikes_visited: "n \<in> visited \<Longrightarrow> hikes graph visited n finish = {}"
  by (auto simp: hikes_def)

lemma hikes_empty_visited: "hikes graph {} a b = {ps. simple_path graph a ps b}"
  by (simp add: hikes_def)

lemma hikes_step:
  assumes "cur \<noteq> finish" and "map_of graph cur = Some nbrs" and "cur \<notin> visited"
  shows "hikes graph visited cur finish =
    {(n, w) # ps | n w ps. (n, w) \<in> set nbrs \<and> ps \<in> hikes graph (insert cur visited) n finish}"
    (is "?L = ?R")
proof (intro set_eqI iffI)
  fix qs assume "qs \<in> ?L"
  then have sp: "is_path graph cur qs finish" and d: "distinct (cur # map fst qs)"
    and v: "set (cur # map fst qs) \<inter> visited = {}"
    by (auto simp: hikes_def simple_path_def)
  from sp assms(1) obtain n w ps where qs: "qs = (n, w) # ps" by (cases qs) auto
  with sp assms(2) have "(n, w) \<in> set nbrs" "is_path graph n ps finish"
    by (auto simp: edge_def)
  moreover from d v qs have "distinct (n # map fst ps)"
    "set (n # map fst ps) \<inter> insert cur visited = {}" by auto
  ultimately show "qs \<in> ?R" using qs by (auto simp: hikes_def simple_path_def)
next
  fix qs assume "qs \<in> ?R"
  then obtain n w ps where qs: "qs = (n, w) # ps" and nw: "(n, w) \<in> set nbrs"
    and ps: "ps \<in> hikes graph (insert cur visited) n finish" by auto
  from ps have "is_path graph n ps finish" "distinct (n # map fst ps)"
    "set (n # map fst ps) \<inter> insert cur visited = {}"
    by (auto simp: hikes_def simple_path_def)
  with nw assms qs show "qs \<in> ?L"
    by (auto simp: hikes_def simple_path_def edge_def)
qed

lemma targets_ok_lookup:
  "closed graph \<Longrightarrow> weights_ok graph \<Longrightarrow> map_of graph cur = Some nbrs \<Longrightarrow> targets_ok graph nbrs"
  by (auto simp: closed_def weights_ok_def targets_ok_def dest!: map_of_SomeD)

lemma via_Nil: "via graph visited [] finish = {}"
  by (simp add: via_def)

lemma via_Cons:
  "via graph visited ((n, w) # rest) finish =
     (\<lambda>x. w + x) ` weight ` hikes graph visited n finish \<union> via graph visited rest finish"
  by (auto simp: via_def)

lemma weight_hikes_step:
  assumes "cur \<noteq> finish" and "map_of graph cur = Some nbrs" and "cur \<notin> visited"
  shows "weight ` hikes graph visited cur finish = via graph (insert cur visited) nbrs finish"
proof -
  have "weight ` {(n, w) # ps | n w ps. P n w ps} = {w + weight ps | n w ps. P n w ps}"
    for P :: "'a \<Rightarrow> int \<Rightarrow> ('a \<times> int) list \<Rightarrow> bool"
    by (force simp: weight_def image_iff)
  then show ?thesis unfolding hikes_step[OF assms] via_def by simp
qed

lemma greatest_py_add:
  assumes "greatest r (insert NegInf (Steps ` W))" and "py_add r w = Inr s"
  shows "greatest s (insert NegInf (Steps ` (\<lambda>x. w + x) ` W))"
  using assms by (cases r) (auto simp: greatest_def split: if_splits)

lemma greatest_loop_step:
  assumes "greatest s (insert NegInf (Steps ` A))"
    and "greatest r (insert (py_max m s) (Steps ` B))"
  shows "greatest r (insert m (Steps ` (A \<union> B)))"
proof -
  from assms(1) have s: "s = NegInf \<or> s \<in> Steps ` A" and sup: "\<forall>x \<in> Steps ` A. x \<le> s"
    by (auto simp: greatest_def)
  from assms(2) have r: "r = max m s \<or> r \<in> Steps ` B"
    and rup: "max m s \<le> r" "\<forall>x \<in> Steps ` B. x \<le> r"
    by (auto simp: greatest_def py_max_eq_max)
  have "r \<in> insert m (Steps ` (A \<union> B))"
    using r s by (cases "m \<le> s") (auto simp: max_def)
  moreover have "\<forall>x \<in> insert m (Steps ` (A \<union> B)). x \<le> r"
    using sup rup by (auto simp: image_Un)
  ultimately show ?thesis by (simp add: greatest_def)
qed

text \<open>
  On a closed graph the search from an unvisited node returns, leaves the visited set as
  it found it, and its result is the greatest weight of a simple path to the finish that
  avoids the visited nodes, or minus infinity when there is none. The loop returns the
  greatest of the running maximum and the weights of the paths through the remaining
  items.
\<close>

lemma dfs_greatest:
  "closed graph \<Longrightarrow> weights_ok graph \<Longrightarrow> cur \<in> fst ` set graph \<or> cur = finish \<Longrightarrow>
     cur \<notin> visited \<Longrightarrow>
     \<exists>r. dfs graph cur finish visited = Inr (r, visited) \<and>
         greatest r (insert NegInf (Steps ` weight ` hikes graph visited cur finish))"
  "closed graph \<Longrightarrow> weights_ok graph \<Longrightarrow> targets_ok graph nbrs \<Longrightarrow>
     \<exists>r. dfs_loop graph finish nbrs max_steps visited = Inr (r, visited) \<and>
         greatest r (insert max_steps (Steps ` via graph visited nbrs finish))"
proof (induction graph cur finish visited and graph finish nbrs max_steps visited
    rule: dfs_dfs_loop.induct)
  case (1 graph cur finish visited)
  show ?case
  proof (cases "cur = finish")
    case True
    with 1(5) show ?thesis
      by (simp add: dfs.simps hikes_finish greatest_def weight_def)
  next
    case False
    with 1(4) obtain nbrs where nb: "map_of graph cur = Some nbrs"
      by (metis map_of_eq_None_iff not_Some_eq)
    from 1(1)[OF False nb 1(2,3) targets_ok_lookup[OF 1(2,3) nb]] obtain r where
      lp: "dfs_loop graph finish nbrs NegInf (insert cur visited) = Inr (r, insert cur visited)"
      and g: "greatest r (insert NegInf (Steps ` via graph (insert cur visited) nbrs finish))"
      by blast
    from False nb lp 1(5) have "dfs graph cur finish visited = Inr (r, visited)"
      by (simp add: dfs.simps)
    with g show ?thesis by (simp add: weight_hikes_step[OF False nb 1(5)])
  qed
next
  case (2 graph finish max_steps visited)
  then show ?case by (simp add: via_Nil greatest_def)
next
  case (3 graph finish nxt w rest max_steps visited)
  from 3(6) have tr: "targets_ok graph rest" and nk: "nxt \<in> fst ` set graph"
    and fw: "float_ok w"
    by (auto simp: targets_ok_def)
  show ?case
  proof (cases "nxt \<in> visited")
    case True
    from 3(1)[OF True 3(4,5) tr] True show ?thesis
      by (simp add: via_Cons hikes_visited)
  next
    case False
    from 3(2)[OF False 3(4,5) _ False] nk obtain r1 where
      d: "dfs graph nxt finish visited = Inr (r1, visited)"
      and g1: "greatest r1 (insert NegInf (Steps ` weight ` hikes graph visited nxt finish))"
      by blast
    from fw obtain s where a: "py_add r1 w = Inr s" by (cases r1) auto
    from 3(3)[OF False d refl a 3(4,5) tr] obtain r where
      l: "dfs_loop graph finish rest (py_max max_steps s) visited = Inr (r, visited)"
      and g: "greatest r (insert (py_max max_steps s) (Steps ` via graph visited rest finish))"
      by blast
    from False d a l
    have "dfs_loop graph finish ((nxt, w) # rest) max_steps visited = Inr (r, visited)"
      by simp
    moreover from greatest_loop_step[OF greatest_py_add[OF g1 a] g]
    have "greatest r (insert max_steps (Steps ` via graph visited ((nxt, w) # rest) finish))"
      by (simp add: via_Cons)
    ultimately show ?thesis by blast
  qed
qed

lemma simple_path_start:
  assumes "simple_path graph start ps finish"
  shows "start \<in> fst ` set graph \<or> start = finish"
proof (cases ps)
  case Nil
  with assms show ?thesis by (simp add: simple_path_def)
next
  case (Cons p qs)
  with assms obtain nbrs where "map_of graph start = Some nbrs"
    by (cases p) (auto simp: simple_path_def edge_def split: option.splits)
  then show ?thesis by (metis map_of_eq_None_iff option.distinct(1))
qed

text \<open>
  Claim C1. On a graph over its node set (every edge target is a key, every weight fits a
  double) with at least one simple path from the entry to the exit, \<open>get_max_steps\<close>
  returns an integer \<open>m\<close>; \<open>m\<close> is the sum of the edge weights along some simple
  entry-to-exit path, and no simple entry-to-exit path has a greater sum.
\<close>

theorem get_max_steps_maximum:
  assumes "closed graph" and "weights_ok graph"
    and "simple_path graph start ps0 finish"
  shows "\<exists>m. get_max_steps graph start finish = Inr (Steps m) \<and>
           (\<exists>ps. simple_path graph start ps finish \<and> weight ps = m) \<and>
           (\<forall>ps. simple_path graph start ps finish \<longrightarrow> weight ps \<le> m)"
proof -
  let ?W = "weight ` {ps. simple_path graph start ps finish}"
  from dfs_greatest(1)[OF assms(1,2) simple_path_start[OF assms(3)], of "{}"]
  obtain r where run: "dfs graph start finish {} = Inr (r, {})"
    and g: "greatest r (insert NegInf (Steps ` ?W))"
    by (auto simp: hikes_empty_visited)
  from assms(3) have "Steps (weight ps0) \<in> Steps ` ?W" by blast
  with g have "Steps (weight ps0) \<le> r" unfolding greatest_def by blast
  then obtain m where r: "r = Steps m" by (cases r) auto
  from g r have "m \<in> ?W" and "\<forall>x \<in> ?W. x \<le> m" by (auto simp: greatest_def)
  moreover from run r have "get_max_steps graph start finish = Inr (Steps m)"
    by (simp add: get_max_steps_def get_max_steps_run_def)
  ultimately show ?thesis by auto
qed

lemma triangle_ok: "closed triangle" "weights_ok triangle"
  by (simp_all add: closed_def weights_ok_def triangle_def float_ok_def)

theorem get_max_steps_maximum_witness:
  "closed triangle \<and> weights_ok triangle \<and>
   simple_path triangle (0, 1) [((1, 1), 3), ((2, 1), 5)] (2, 1) \<and>
   (\<exists>m. get_max_steps triangle (0, 1) (2, 1) = Inr (Steps m) \<and>
      (\<exists>ps. simple_path triangle (0, 1) ps (2, 1) \<and> weight ps = m) \<and>
      (\<forall>ps. simple_path triangle (0, 1) ps (2, 1) \<longrightarrow> weight ps \<le> m))"
proof -
  have p: "simple_path triangle (0, 1) [((1, 1), 3), ((2, 1), 5)] (2, 1)"
    by (simp add: simple_path_def triangle_def edge_def)
  from get_max_steps_maximum[OF triangle_ok p] triangle_ok p show ?thesis by blast
qed

text \<open>
  Claim C2. On a graph over its node set whose entry is a key, when no path leads from the
  entry to the exit, \<open>get_max_steps\<close> returns without raising, and returns minus infinity,
  which is no integer path length (0 included).
\<close>

theorem get_max_steps_unreachable:
  assumes "closed graph" and "weights_ok graph" and "start \<in> fst ` set graph"
    and "\<nexists>ps. is_path graph start ps finish"
  shows "get_max_steps graph start finish = Inr NegInf \<and>
         (\<forall>n. get_max_steps graph start finish \<noteq> Inr (Steps n))"
proof -
  from assms(4) have "hikes graph {} start finish = {}"
    by (auto simp: hikes_def simple_path_def)
  with dfs_greatest(1)[OF assms(1,2), of start finish "{}"] assms(3)
  have "dfs graph start finish {} = Inr (NegInf, {})"
    by (auto simp: greatest_def)
  then show ?thesis by (simp add: get_max_steps_def get_max_steps_run_def)
qed

lemma two_regions_ok: "closed two_regions" "weights_ok two_regions"
  by (simp_all add: closed_def weights_ok_def two_regions_def float_ok_def)

lemma two_regions_stay:
  "is_path two_regions a ps b \<Longrightarrow> a \<in> {(0, 1), (1, 1)} \<Longrightarrow> b \<in> {(0, 1), (1, 1)}"
proof (induction two_regions a ps b rule: is_path.induct)
  case (1 a b)
  then show ?case by simp
next
  case (2 a n w ps b)
  from 2(2,3) have "n \<in> {(0, 1), (1, 1)}"
    by (auto simp: edge_def two_regions_def split: if_splits)
  with 2 show ?case by simp
qed

theorem get_max_steps_unreachable_witness:
  "closed two_regions \<and> weights_ok two_regions \<and> (0, 1) \<in> fst ` set two_regions \<and>
   (\<nexists>ps. is_path two_regions (0, 1) ps (2, 1)) \<and>
   get_max_steps two_regions (0, 1) (2, 1) = Inr NegInf \<and>
   get_max_steps two_regions (0, 1) (2, 1) \<noteq> Inr (Steps 0)"
proof -
  have k: "(0, 1) \<in> fst ` set two_regions" by (simp add: two_regions_def)
  have n: "\<nexists>ps. is_path two_regions (0, 1) ps (2, 1)"
    using two_regions_stay[of "(0, 1)" _ "(2, 1)"] by auto
  from get_max_steps_unreachable[OF two_regions_ok k n] two_regions_ok k n
  show ?thesis by blast
qed

text \<open>
  Outside such graphs the search raises: on an edge to a node that is no key, and on a
  weight that does not fit a double at the end of a branch that found no path.
\<close>

lemma get_max_steps_missing_key:
  "get_max_steps [((0, 1), [((1, 1), 1)])] ((0, 1) :: cell) (2, 1) = Inl KeyError"
  by (simp add: get_max_steps_def get_max_steps_run_def dfs.simps)

lemma get_max_steps_overflow:
  "get_max_steps [((0, 1), [((1, 1), 2 ^ 1024)]), ((1, 1), [])] ((0, 1) :: cell) (2, 1)
     = Inl OverflowError"
  by (simp add: get_max_steps_def get_max_steps_run_def dfs.simps float_ok_def)

text \<open>
  Claim C8. The set a returning top-level search leaves behind is empty; so a second
  search that started from the set left by a first one would be the search from a fresh
  empty set, which is how \<open>get_max_steps\<close> starts every search.
\<close>

theorem get_max_steps_visited_fresh:
  assumes "get_max_steps_run graph1 start finish = Inr (p1, visited)"
  shows "visited = {} \<and>
         dfs graph2 start2 finish2 visited = get_max_steps_run graph2 start2 finish2"
proof -
  from assms have "dfs graph1 start finish {} = Inr (p1, visited)"
    by (simp add: get_max_steps_run_def)
  from dfs_visited(1)[OF this] have "visited = {}" by (simp split: if_splits)
  then show ?thesis by (simp add: get_max_steps_run_def)
qed

theorem get_max_steps_visited_fresh_witness:
  "get_max_steps_run triangle (0, 1) (2, 1) = Inr (Steps 10, {}) \<and>
   dfs two_regions (0, 1) (2, 1) {} = get_max_steps_run two_regions (0, 1) (2, 1)"
proof -
  have r: "get_max_steps_run triangle (0, 1) (2, 1) = Inr (Steps 10, {})"
    by (simp add: get_max_steps_run_def triangle_def dfs.simps py_max_def)
  from get_max_steps_visited_fresh[OF r, of two_regions "(0, 1)" "(2, 1)"] r
  show ?thesis by simp
qed

section \<open>The endpoints\<close>

text \<open>
  \<open>k\<close> is the column \<^verbatim>\<open>get_start_finish\<close> finds in a row: the index of the first
  \<^verbatim>\<open>'.'\<close>, and 0 when the row has none.
\<close>

definition first_open_or_zero :: "string \<Rightarrow> int \<Rightarrow> bool" where
  "first_open_or_zero row k =
     (if CHR ''.'' \<in> set row
      then 0 \<le> k \<and> nat k < length row \<and> row ! nat k = CHR ''.'' \<and>
           (\<forall>j < nat k. row ! j \<noteq> CHR ''.'')
      else k = 0)"

lemma first_open_absent: "CHR ''.'' \<notin> set row \<Longrightarrow> first_open row idx = 0"
  by (induction row idx rule: first_open.induct) auto

lemma first_open_present:
  "CHR ''.'' \<in> set row \<Longrightarrow> 0 \<le> idx \<Longrightarrow>
     idx \<le> first_open row idx \<and> nat (first_open row idx - idx) < length row \<and>
     row ! nat (first_open row idx - idx) = CHR ''.'' \<and>
     (\<forall>j < nat (first_open row idx - idx). row ! j \<noteq> CHR ''.'')"
proof (induction row idx rule: first_open.induct)
  case (1 idx)
  then show ?case by simp
next
  case (2 i row idx)
  show ?case
  proof (cases "i = CHR ''.''")
    case True
    then show ?thesis by simp
  next
    case False
    with 2 have ih: "idx + 1 \<le> first_open row (idx + 1)"
      "nat (first_open row (idx + 1) - (idx + 1)) < length row"
      "row ! nat (first_open row (idx + 1) - (idx + 1)) = CHR ''.''"
      "\<forall>j < nat (first_open row (idx + 1) - (idx + 1)). row ! j \<noteq> CHR ''.''"
      by auto
    let ?k = "first_open row (idx + 1)"
    from ih(1) have k: "nat (?k - idx) = Suc (nat (?k - (idx + 1)))" by simp
    from False have f: "first_open (i # row) idx = ?k" by simp
    have "\<forall>j < nat (?k - idx). (i # row) ! j \<noteq> CHR ''.''"
    proof (intro allI impI)
      fix j assume "j < nat (?k - idx)"
      with k ih(4) False show "(i # row) ! j \<noteq> CHR ''.''" by (cases j) auto
    qed
    with ih k show ?thesis unfolding f by simp
  qed
qed

lemma first_open_spec: "first_open_or_zero row (first_open row 0)"
  using first_open_absent[of row 0] first_open_present[of row 0]
  by (auto simp: first_open_or_zero_def)

text \<open>
  Claim C4, amended. \<open>get_start_finish\<close> never fails for want of an open cell. On a
  grid with at least one row it returns the entry in row 0 and the exit in the last row,
  each at the column of the first open cell of its row (the unique one when there is only
  one) and at column 0 when the row has no open cell. On the empty grid \<^verbatim>\<open>grid[0]\<close>
  raises IndexError.
\<close>

theorem get_start_finish_first_open:
  "if grid = [] then get_start_finish grid = Inl IndexError
   else \<exists>start_y finish_y.
          get_start_finish grid = Inr ((0, start_y), (int (length grid) - 1, finish_y)) \<and>
          first_open_or_zero (grid ! 0) start_y \<and> first_open_or_zero (last grid) finish_y"
proof (cases "grid = []")
  case True
  then show ?thesis by (simp add: get_start_finish_def py_index_def)
next
  case False
  then have "Suc 0 \<le> length grid" by (cases grid) simp_all
  with False have "py_index grid 0 = Inr (grid ! 0)" "py_index grid (- 1) = Inr (last grid)"
    by (auto simp: py_index_def last_conv_nth nat_diff_distrib')
  with False show ?thesis by (simp add: get_start_finish_def first_open_spec)
qed

theorem get_start_finish_first_open_witness:
  "\<exists>start_y finish_y.
     get_start_finish [''#.#.'', ''##.#''] = Inr ((0, start_y), (1, finish_y)) \<and>
     first_open_or_zero ''#.#.'' start_y \<and> first_open_or_zero ''##.#'' finish_y"
  using get_start_finish_first_open[of "[''#.#.'', ''##.#'']"] by simp

text \<open>
  The claim as stated fails: row 0 of this grid has no open cell, and the function returns
  the entry \<open>(0, 0)\<close> instead of failing.
\<close>

theorem get_start_finish_no_open_cell:
  "CHR ''.'' \<notin> set ''#v#'' \<and> get_start_finish [''#v#'', ''#.#''] = Inr ((0, 0), (1, 1))"
  by (simp add: get_start_finish_def py_index_def)

section \<open>The constrained step\<close>

text \<open>The four orthogonal neighbours of a cell.\<close>

definition adjacent :: "cell \<Rightarrow> cell \<Rightarrow> bool" where
  "adjacent c n \<longleftrightarrow>
     n = (fst c, snd c + 1) \<or> n = (fst c, snd c - 1) \<or>
     n = (fst c + 1, snd c) \<or> n = (fst c - 1, snd c)"

text \<open>
  In \<open>wall_grid\<close> the slope \<^verbatim>\<open>'>'\<close> at \<open>(1, 1)\<close> points at the wall cell \<open>(1, 2)\<close>,
  which separates the entry from the exit. In \<open>slope_grid\<close> the slope \<^verbatim>\<open>'v'\<close> at
  \<open>(2, 1)\<close> points out of the grid.
\<close>

definition wall_grid :: grid where
  "wall_grid = [''#.###'', ''#>#.#'', ''###.#'']"

definition slope_grid :: grid where
  "slope_grid = [''#.#'', ''.>.'', ''#v#'']"

text \<open>
  Claim C3 fails on the code. The forced-direction branches of \<open>get_nxt_cells_p1\<close> test
  the indicated neighbour with \<open>is_valid_loc\<close> only, not for \<^verbatim>\<open>'#'\<close> as the loop of the
  last branch does: from the \<^verbatim>\<open>'>'\<close> of \<open>wall_grid\<close> the step function returns the wall
  cell, and the driver finds a part 1 path of 4 steps through that wall while part 2 finds
  none. And when the indicated neighbour is outside the grid the last branch runs: from the
  \<^verbatim>\<open>'v'\<close> of \<open>slope_grid\<close> the step function returns the cell above, not a cell in the
  indicated direction.
\<close>

theorem get_nxt_cells_p1_returns_wall:
  "cell_at wall_grid (1, 1) = Inr CHR ''>'' \<and>
   get_nxt_cells_p1 wall_grid (1, 1) = Inr [(1, 2)] \<and>
   cell_at wall_grid (1, 2) = Inr CHR ''#'' \<and> \<not> passable wall_grid (1, 2) \<and>
   driver wall_grid = Inr (Steps 4, NegInf) \<and>
   cell_at slope_grid (2, 1) = Inr CHR ''v'' \<and>
   get_nxt_cells_p1 slope_grid (2, 1) = Inr [(1, 1)]"
proof -
  have "cell_at wall_grid (1, 1) = Inr CHR ''>''" "cell_at wall_grid (1, 2) = Inr CHR ''#''"
    by (simp_all add: wall_grid_def cell_at_def py_index_def)
  moreover from this(2) have "\<not> passable wall_grid (1, 2)" by (simp add: passable_def)
  moreover have "get_nxt_cells_p1 wall_grid (1, 1) = Inr [(1, 2)]"
    by (simp add: get_nxt_cells_p1_def wall_grid_def cell_at_def py_index_def is_valid_loc_def)
  moreover have "driver wall_grid = Inr (Steps 4, NegInf)" by code_simp
  moreover have "cell_at slope_grid (2, 1) = Inr CHR ''v''"
    "get_nxt_cells_p1 slope_grid (2, 1) = Inr [(1, 1)]"
    by (simp_all add: get_nxt_cells_p1_def slope_grid_def cell_at_def py_index_def
        is_valid_loc_def)
  ultimately show ?thesis by simp
qed

section \<open>The junctions\<close>

text \<open>
  A grid is rectangular when every row is as long as row 0. The passable neighbours of a
  cell are its orthogonal neighbours that are valid locations and hold no \<^verbatim>\<open>'#'\<close>.
\<close>

definition rectangular :: "grid \<Rightarrow> bool" where
  "rectangular grid = (\<forall>row \<in> set grid. length row = length (grid ! 0))"

definition passable_neighbors :: "grid \<Rightarrow> cell \<Rightarrow> cell set" where
  "passable_neighbors grid c = {n. adjacent c n \<and> passable grid n}"

lemma cell_at_valid:
  assumes "rectangular grid" and "is_valid_loc grid c"
  shows "cell_at grid c = Inr (grid ! nat (fst c) ! nat (snd c))"
proof -
  from assms(2) have x: "0 \<le> fst c" "fst c < int (length grid)"
    and y: "0 \<le> snd c" "snd c < int (length (grid ! 0))"
    by (simp_all add: is_valid_loc_def)
  from x have "grid ! nat (fst c) \<in> set grid" by simp
  with assms(1) have "length (grid ! nat (fst c)) = length (grid ! 0)"
    by (simp add: rectangular_def)
  with x y show ?thesis by (simp add: cell_at_def py_index_def)
qed

lemma passable_iff:
  "rectangular grid \<Longrightarrow>
     passable grid c \<longleftrightarrow> is_valid_loc grid c \<and> grid ! nat (fst c) ! nat (snd c) \<noteq> CHR ''#''"
  by (auto simp: passable_def cell_at_valid)

lemma count_neighbors_filter:
  "rectangular grid \<Longrightarrow>
     count_neighbors grid c ds k =
       Inr (k + int (length (filter (\<lambda>d. passable grid (fst c + fst d, snd c + snd d)) ds)))"
proof (induction grid c ds k rule: count_neighbors.induct)
  case (1 grid cell neighbors)
  then show ?case by simp
next
  case (2 grid cell dx dy ds neighbors)
  let ?n = "(fst cell + dx, snd cell + dy)"
  show ?case
  proof (cases "is_valid_loc grid ?n")
    case False
    then have "\<not> passable grid ?n" by (simp add: passable_def)
    with False 2 show ?thesis by simp
  next
    case True
    from cell_at_valid[OF 2(3) True] obtain ch where ch: "cell_at grid ?n = Inr ch" by blast
    with True have p: "passable grid ?n \<longleftrightarrow> ch \<noteq> CHR ''#''" by (simp add: passable_def)
    from 2(1)[OF True ch 2(3)] True ch p show ?thesis by simp
  qed
qed

lemma four_neighbors_card:
  "length (filter (\<lambda>d. passable grid (fst c + fst d, snd c + snd d))
      [(1, 0), (- 1, 0), (0, 1), (0, - 1)]) = card (passable_neighbors grid c)"
proof -
  let ?nb = "[(fst c + 1, snd c), (fst c - 1, snd c), (fst c, snd c + 1), (fst c, snd c - 1)]"
  have "length (filter (\<lambda>d. passable grid (fst c + fst d, snd c + snd d))
      [(1, 0), (- 1, 0), (0, 1), (0, - 1)]) = length (filter (passable grid) ?nb)"
    by simp
  also have "\<dots> = card (set (filter (passable grid) ?nb))"
    by (rule distinct_card[symmetric]) simp
  also have "set (filter (passable grid) ?nb) = passable_neighbors grid c"
    by (auto simp: passable_neighbors_def adjacent_def)
  finally show ?thesis .
qed

lemma count_neighbors_card:
  "rectangular grid \<Longrightarrow>
     count_neighbors grid c [(1, 0), (- 1, 0), (0, 1), (0, - 1)] 0 =
       Inr (int (card (passable_neighbors grid c)))"
  using count_neighbors_filter[of grid c "[(1, 0), (- 1, 0), (0, 1), (0, - 1)]" 0]
    four_neighbors_card[of grid c]
  by (simp only: add_0)

text \<open>A junction: a passable cell with three or more passable neighbours.\<close>

definition junction :: "grid \<Rightarrow> cell \<Rightarrow> bool" where
  "junction grid c \<longleftrightarrow> passable grid c \<and> 3 \<le> card (passable_neighbors grid c)"

lemma option_cols_set:
  assumes "rectangular grid" and "0 \<le> x" and "x < int (length grid)"
    and "\<forall>y \<in> set ys. 0 \<le> y \<and> y < int (length (grid ! 0))"
  shows "\<exists>points'. option_cols grid x ys points = Inr points' \<and>
           set points' = set points \<union> {(x, y) | y. y \<in> set ys \<and> junction grid (x, y)}"
  using assms(4)
proof (induction ys arbitrary: points)
  case Nil
  then show ?case by simp
next
  case (Cons y ys)
  from Cons(2) assms(2,3) have v: "is_valid_loc grid (x, y)" by (simp add: is_valid_loc_def)
  from cell_at_valid[OF assms(1) v] obtain ch where ch: "cell_at grid (x, y) = Inr ch" by blast
  with v have p: "passable grid (x, y) \<longleftrightarrow> ch \<noteq> CHR ''#''" by (simp add: passable_def)
  note cnt = count_neighbors_card[OF assms(1), of "(x, y)"]
  let ?points = "if ch \<noteq> CHR ''#'' \<and> 3 \<le> card (passable_neighbors grid (x, y))
                 then points @ [(x, y)] else points"
  from Cons(2) have "\<forall>y \<in> set ys. 0 \<le> y \<and> y < int (length (grid ! 0))" by simp
  from Cons(1)[OF this, of ?points] obtain points' where
    r: "option_cols grid x ys ?points = Inr points'"
    and s: "set points' = set ?points \<union> {(x, y) | y. y \<in> set ys \<and> junction grid (x, y)}"
    by blast
  have "option_cols grid x (y # ys) points = option_cols grid x ys ?points"
    by (simp add: ch cnt del: count_neighbors.simps)
  moreover have "set ?points \<union> {(x, y) | y. y \<in> set ys \<and> junction grid (x, y)}
      = set points \<union> {(x, y') | y'. y' \<in> set (y # ys) \<and> junction grid (x, y')}"
    using p by (auto simp: junction_def)
  ultimately show ?case using r s by simp
qed

lemma option_rows_set:
  assumes "rectangular grid" and "\<forall>x \<in> set xs. 0 \<le> x \<and> x < int (length grid)"
  shows "\<exists>points'. option_rows grid xs points = Inr points' \<and>
           set points' = set points \<union> {(x, y) | x y. x \<in> set xs \<and> junction grid (x, y)}"
  using assms(2)
proof (induction xs arbitrary: points)
  case Nil
  then show ?case by simp
next
  case (Cons x xs)
  let ?ys = "[0..int (length (grid ! 0)) - 1]"
  from Cons(2) have x: "0 \<le> x" "x < int (length grid)" by simp_all
  have "\<forall>y \<in> set ?ys. 0 \<le> y \<and> y < int (length (grid ! 0))" by simp
  from option_cols_set[OF assms(1) x this, of points] obtain points1 where
    c: "option_cols grid x ?ys points = Inr points1"
    and cs: "set points1 = set points \<union> {(x, y) | y. y \<in> set ?ys \<and> junction grid (x, y)}"
    by blast
  from Cons(2) have "\<forall>x \<in> set xs. 0 \<le> x \<and> x < int (length grid)" by simp
  from Cons(1)[OF this, of points1] obtain points' where
    r: "option_rows grid xs points1 = Inr points'"
    and rs: "set points' = set points1 \<union> {(x, y) | x y. x \<in> set xs \<and> junction grid (x, y)}"
    by blast
  have "junction grid (x, y) \<Longrightarrow> y \<in> set ?ys" for y
    by (auto simp: junction_def passable_def is_valid_loc_def)
  with cs have "set points1 = set points \<union> {(x, y) | y. junction grid (x, y)}" by auto
  with rs have "set points' = set points \<union> {(x', y) | x' y. x' \<in> set (x # xs) \<and> junction grid (x', y)}"
    by auto
  with c r show ?case by simp
qed

lemma get_option_points_set:
  assumes "rectangular grid"
  shows "\<exists>points. get_option_points grid start finish = Inr points \<and>
           set points = {start, finish} \<union> {c. junction grid c}"
proof -
  let ?xs = "[0..int (length grid) - 1]"
  have "\<forall>x \<in> set ?xs. 0 \<le> x \<and> x < int (length grid)" by simp
  from option_rows_set[OF assms this, of "[start, finish]"] obtain points where
    r: "option_rows grid ?xs [start, finish] = Inr points"
    and s: "set points = set [start, finish] \<union> {(x, y) | x y. x \<in> set ?xs \<and> junction grid (x, y)}"
    by blast
  have "junction grid c \<Longrightarrow> fst c \<in> set ?xs" for c
    by (auto simp: junction_def passable_def is_valid_loc_def)
  then have "{(x, y) | x y. x \<in> set ?xs \<and> junction grid (x, y)} = {c. junction grid c}"
    by auto
  with r s show ?thesis by (simp add: get_option_points_def)
qed

text \<open>
  Claim C7. On a rectangular grid \<open>get_option_points\<close> returns, and a passable cell
  that is neither the entry nor the exit is in the list returned if and only if it has
  three or more passable orthogonal neighbours; a cell with exactly two is not in the list,
  whatever its neighbours are.
\<close>

theorem get_option_points_junctions:
  assumes "rectangular grid"
  shows "\<exists>points. get_option_points grid start finish = Inr points \<and>
           (\<forall>c. passable grid c \<and> c \<noteq> start \<and> c \<noteq> finish \<longrightarrow>
              (c \<in> set points \<longleftrightarrow> 3 \<le> card (passable_neighbors grid c)) \<and>
              (card (passable_neighbors grid c) = 2 \<longrightarrow> c \<notin> set points))"
proof -
  from get_option_points_set[OF assms, of start finish] obtain points where
    "get_option_points grid start finish = Inr points"
    "set points = {start, finish} \<union> {c. junction grid c}" by blast
  then show ?thesis by (auto simp: junction_def)
qed

definition cross_grid :: grid where
  "cross_grid = [''#.#'', ''...'', ''#.#'']"

theorem get_option_points_junctions_witness:
  "rectangular cross_grid \<and>
   (\<exists>points. get_option_points cross_grid (0, 1) (2, 1) = Inr points \<and>
      (\<forall>c. passable cross_grid c \<and> c \<noteq> (0, 1) \<and> c \<noteq> (2, 1) \<longrightarrow>
         (c \<in> set points \<longleftrightarrow> 3 \<le> card (passable_neighbors cross_grid c)) \<and>
         (card (passable_neighbors cross_grid c) = 2 \<longrightarrow> c \<notin> set points)))"
proof -
  have r: "rectangular cross_grid" by (simp add: rectangular_def cross_grid_def)
  from get_option_points_junctions[OF r, of "(0, 1)" "(2, 1)"] r show ?thesis by blast
qed

section \<open>The graph that is built\<close>

text \<open>
  Three invariants of \<^verbatim>\<open>build_graph\<close>: every edge target lies in a given set, no
  inner dictionary holds its own key, and an entry of the stack for the start point \<open>s\<close>
  itself has 0 steps (it is the initial entry: \<open>s\<close> is seen from the start and never
  pushed again).
\<close>

definition targets_in :: "'n set \<Rightarrow> 'n adjacency \<Rightarrow> bool" where
  "targets_in P graph = (\<forall>(k, d) \<in> set graph. fst ` set d \<subseteq> P)"

definition no_self_loop :: "'n adjacency \<Rightarrow> bool" where
  "no_self_loop graph = (\<forall>(k, d) \<in> set graph. k \<notin> fst ` set d)"

definition stack_ok :: "cell \<Rightarrow> (int \<times> cell) list \<Rightarrow> bool" where
  "stack_ok s stack = (\<forall>(steps, n) \<in> set stack. n = s \<longrightarrow> steps = 0)"

lemma set_update_subset: "set (AList.update k v al) \<subseteq> insert (k, v) (set al)"
  by (induction al) auto

lemma set_edge_entries:
  assumes "set_edge graph s n steps = Inr graph'"
  obtains d where "(s, d) \<in> set graph"
    and "set graph' \<subseteq> insert (s, AList.update n steps d) (set graph)"
    and "fst ` set graph' = fst ` set graph"
proof -
  from assms obtain d where d: "map_of graph s = Some d"
    and g: "graph' = AList.update s (AList.update n steps d) graph"
    by (auto simp: set_edge_def split: option.splits)
  from d have m: "(s, d) \<in> set graph" by (rule map_of_SomeD)
  then have "s \<in> fst ` set graph" by force
  then have "fst ` set graph' = fst ` set graph" unfolding g by (auto simp: dom_update)
  with m set_update_subset[of s "AList.update n steps d" graph] that show thesis
    unfolding g by blast
qed

lemma set_edge_targets_in:
  assumes "set_edge graph s n steps = Inr graph'" and "n \<in> P" and "targets_in P graph"
  shows "targets_in P graph'"
proof -
  from assms(1) obtain d where d: "(s, d) \<in> set graph"
    and sub: "set graph' \<subseteq> insert (s, AList.update n steps d) (set graph)"
    by (rule set_edge_entries)
  from d assms(3) have "fst ` set d \<subseteq> P" unfolding targets_in_def by blast
  with assms(2) have "fst ` set (AList.update n steps d) \<subseteq> P" by (simp add: dom_update)
  with sub assms(3) show ?thesis unfolding targets_in_def by blast
qed

lemma set_edge_no_self_loop:
  assumes "set_edge graph s n steps = Inr graph'" and "n \<noteq> s" and "no_self_loop graph"
  shows "no_self_loop graph'"
proof -
  from assms(1) obtain d where d: "(s, d) \<in> set graph"
    and sub: "set graph' \<subseteq> insert (s, AList.update n steps d) (set graph)"
    by (rule set_edge_entries)
  from d assms(3) have "s \<notin> fst ` set d" unfolding no_self_loop_def by blast
  with assms(2) have "s \<notin> fst ` set (AList.update n steps d)" by (simp add: dom_update)
  with sub assms(3) show ?thesis unfolding no_self_loop_def by blast
qed

lemma push_cells_stack_ok:
  "push_cells steps cs stack seen = (stack', seen') \<Longrightarrow> s \<in> seen \<Longrightarrow> stack_ok s stack \<Longrightarrow>
     s \<in> seen' \<and> stack_ok s stack'"
proof (induction steps cs stack seen rule: push_cells.induct)
  case (1 steps stack seen)
  then show ?case by simp
next
  case (2 steps c cs stack seen)
  show ?case
  proof (cases "c \<in> seen")
    case True
    with 2 show ?thesis by simp
  next
    case False
    with 2(4) have "c \<noteq> s" by auto
    with 2(5) have "stack_ok s ((steps + 1, c) # stack)" by (simp add: stack_ok_def)
    with 2(1)[OF False] 2(3,4) False show ?thesis by simp
  qed
qed

lemma walk_keys:
  "walk grid points p s graph stack seen = Inr graph' \<Longrightarrow> fst ` set graph' = fst ` set graph"
proof (induction grid points p s graph stack seen rule: walk.induct)
  case (1 grid points p s graph seen)
  then show ?case by simp
next
  case (2 grid points p s graph steps n stack seen)
  show ?case
  proof (cases "steps \<noteq> 0 \<and> n \<in> set points")
    case True
    with 2(3) obtain g1 where e: "set_edge graph s n steps = Inr g1"
      and w: "walk grid points p s g1 stack seen = Inr graph'"
      by (auto split: sum.splits)
    from e have "fst ` set g1 = fst ` set graph" by (rule set_edge_entries)
    with 2(1)[OF True e w] show ?thesis by simp
  next
    case False
    with 2(3) obtain cs stack' seen' where c: "nxt_cells grid p n = Inr cs"
      and ps: "push_cells steps cs stack seen = (stack', seen')"
      and w: "walk grid points p s graph stack' seen' = Inr graph'"
      by (auto split: sum.splits prod.splits)
    from 2(2)[OF False c ps[symmetric] w] show ?thesis .
  qed
qed

lemma walk_targets_in:
  "walk grid points p s graph stack seen = Inr graph' \<Longrightarrow> targets_in (set points) graph \<Longrightarrow>
     targets_in (set points) graph'"
proof (induction grid points p s graph stack seen rule: walk.induct)
  case (1 grid points p s graph seen)
  then show ?case by simp
next
  case (2 grid points p s graph steps n stack seen)
  show ?case
  proof (cases "steps \<noteq> 0 \<and> n \<in> set points")
    case True
    with 2(3) obtain g1 where e: "set_edge graph s n steps = Inr g1"
      and w: "walk grid points p s g1 stack seen = Inr graph'"
      by (auto split: sum.splits)
    from set_edge_targets_in[OF e _ 2(4)] True have "targets_in (set points) g1" by simp
    from 2(1)[OF True e w this] show ?thesis .
  next
    case False
    with 2(3) obtain cs stack' seen' where c: "nxt_cells grid p n = Inr cs"
      and ps: "push_cells steps cs stack seen = (stack', seen')"
      and w: "walk grid points p s graph stack' seen' = Inr graph'"
      by (auto split: sum.splits prod.splits)
    from 2(2)[OF False c ps[symmetric] w 2(4)] show ?thesis .
  qed
qed

lemma walk_no_self_loop:
  "walk grid points p s graph stack seen = Inr graph' \<Longrightarrow> s \<in> seen \<Longrightarrow> stack_ok s stack \<Longrightarrow>
     no_self_loop graph \<Longrightarrow> no_self_loop graph'"
proof (induction grid points p s graph stack seen rule: walk.induct)
  case (1 grid points p s graph seen)
  then show ?case by simp
next
  case (2 grid points p s graph steps n stack seen)
  from 2(5) have rest: "stack_ok s stack" and top: "n = s \<longrightarrow> steps = 0"
    by (simp_all add: stack_ok_def)
  show ?case
  proof (cases "steps \<noteq> 0 \<and> n \<in> set points")
    case True
    with 2(3) obtain g1 where e: "set_edge graph s n steps = Inr g1"
      and w: "walk grid points p s g1 stack seen = Inr graph'"
      by (auto split: sum.splits)
    from True top have "n \<noteq> s" by auto
    from set_edge_no_self_loop[OF e this 2(6)] have "no_self_loop g1" .
    from 2(1)[OF True e w 2(4) rest this] show ?thesis .
  next
    case False
    with 2(3) obtain cs stack' seen' where c: "nxt_cells grid p n = Inr cs"
      and ps: "push_cells steps cs stack seen = (stack', seen')"
      and w: "walk grid points p s graph stack' seen' = Inr graph'"
      by (auto split: sum.splits prod.splits)
    from push_cells_stack_ok[OF ps 2(4) rest] have "s \<in> seen'" "stack_ok s stack'" by simp_all
    from 2(2)[OF False c ps[symmetric] w this 2(6)] show ?thesis .
  qed
qed

lemma walk_all_invariants:
  "walk_all grid points p ss graph = Inr graph' \<Longrightarrow>
     fst ` set graph' = fst ` set graph \<and>
     (targets_in (set points) graph \<longrightarrow> targets_in (set points) graph') \<and>
     (no_self_loop graph \<longrightarrow> no_self_loop graph')"
proof (induction ss arbitrary: graph)
  case Nil
  then show ?case by simp
next
  case (Cons s ss)
  from Cons(2) obtain g1 where w: "walk grid points p s graph [(0, s)] {s} = Inr g1"
    and r: "walk_all grid points p ss g1 = Inr graph'"
    by (auto split: sum.splits)
  have "stack_ok s [(0, s)]" by (simp add: stack_ok_def)
  with walk_keys[OF w] walk_targets_in[OF w] walk_no_self_loop[OF w] Cons(1)[OF r]
  show ?case by auto
qed

lemma empty_dicts:
  "fst ` set (fold (\<lambda>q. AList.update q []) points graph) = set points \<union> fst ` set graph"
  "(\<forall>(k, d) \<in> set graph. d = []) \<Longrightarrow>
     \<forall>(k, d) \<in> set (fold (\<lambda>q. AList.update q []) points graph). d = []"
proof (induction points arbitrary: graph)
  case Nil
  { case 1 show ?case by simp }
  { case 2 then show ?case by simp }
next
  case (Cons q points)
  { case 1 show ?case by (simp add: Cons(1) dom_update) }
  { case 2
    with set_update_subset[of q "[]" graph]
    have "\<forall>(k, d) \<in> set (AList.update q [] graph). d = []" by blast
    from Cons(2)[OF this] show ?case by simp }
qed

lemma build_graph_invariants:
  assumes "build_graph grid points p = Inr graph"
  shows "fst ` set graph = set points" and "targets_in (set points) graph"
    and "no_self_loop graph"
proof -
  let ?g0 = "fold (\<lambda>q. AList.update q []) points []"
  from empty_dicts(2)[of "[]" points] have e: "\<forall>(k, d) \<in> set ?g0. d = []" by simp
  then have "targets_in (set points) ?g0" "no_self_loop ?g0"
    by (auto simp: targets_in_def no_self_loop_def)
  with walk_all_invariants[OF assms[unfolded build_graph_def]] empty_dicts(1)[of points "[]"]
  show "fst ` set graph = set points" and "targets_in (set points) graph"
    and "no_self_loop graph" by simp_all
qed

lemma closed_lookup:
  "closed graph \<Longrightarrow> map_of graph cur = Some nbrs \<Longrightarrow>
     \<forall>(n, w) \<in> set nbrs. n \<in> fst ` set graph"
  by (auto simp: closed_def dest!: map_of_SomeD)

text \<open>
  On a closed graph the search from a key never fails on a missing key: every
  \<^verbatim>\<open>graph[curr]\<close> is defined, and \<^verbatim>\<open>visited.remove(curr)\<close> finds \<open>cur\<close>.
\<close>

lemma dfs_no_key_error:
  "closed graph \<Longrightarrow> cur \<in> fst ` set graph \<or> cur = finish \<Longrightarrow>
     dfs graph cur finish visited \<noteq> Inl KeyError"
  "closed graph \<Longrightarrow> \<forall>(n, w) \<in> set nbrs. n \<in> fst ` set graph \<Longrightarrow>
     dfs_loop graph finish nbrs max_steps visited \<noteq> Inl KeyError"
proof (induction graph cur finish visited and graph finish nbrs max_steps visited
    rule: dfs_dfs_loop.induct)
  case (1 graph cur finish visited)
  show ?case
  proof (cases "cur = finish")
    case True
    then show ?thesis by (simp add: dfs.simps)
  next
    case False
    with 1(3) obtain nbrs where nb: "map_of graph cur = Some nbrs"
      by (metis map_of_eq_None_iff not_Some_eq)
    from 1(1)[OF False nb 1(2) closed_lookup[OF 1(2) nb]]
    have l: "dfs_loop graph finish nbrs NegInf (insert cur visited) \<noteq> Inl KeyError" .
    show ?thesis
    proof (cases "dfs_loop graph finish nbrs NegInf (insert cur visited)")
      case (Inl e)
      with l False nb show ?thesis by (simp add: dfs.simps)
    next
      case (Inr res)
      obtain m v where res: "res = (m, v)" by (cases res)
      from Inr res
      have "dfs_loop graph finish nbrs NegInf (insert cur visited) = Inr (m, v)" by simp
      from dfs_visited(2)[OF this] have "v = insert cur visited" .
      with Inr res False nb show ?thesis by (simp add: dfs.simps)
    qed
  qed
next
  case (2 graph finish max_steps visited)
  then show ?case by simp
next
  case (3 graph finish nxt w rest max_steps visited)
  from 3(5) have tr: "\<forall>(n, w) \<in> set rest. n \<in> fst ` set graph"
    and nk: "nxt \<in> fst ` set graph" by auto
  show ?case
  proof (cases "nxt \<in> visited")
    case True
    with 3(1)[OF True 3(4) tr] show ?thesis by simp
  next
    case False
    from 3(2)[OF False 3(4)] nk have d: "dfs graph nxt finish visited \<noteq> Inl KeyError" by simp
    show ?thesis
    proof (cases "dfs graph nxt finish visited")
      case (Inl e)
      with d False show ?thesis by simp
    next
      case (Inr res)
      obtain r v where res: "res = (r, v)" by (cases res)
      show ?thesis
      proof (cases "py_add r w")
        case (Inl e)
        then have "e = OverflowError" by (cases r) (auto split: if_splits)
        with Inl Inr res False show ?thesis by simp
      next
        case a: (Inr s)
        from 3(3)[OF False Inr[unfolded res] refl a 3(4) tr] a Inr res False
        show ?thesis by simp
      qed
    qed
  qed
qed

lemma targets_in_closed:
  assumes "fst ` set graph = P" and "targets_in P graph"
  shows "closed graph"
  unfolding closed_def
proof clarify
  fix k nbrs n w
  assume "(k, nbrs) \<in> set graph" and nw: "(n, w) \<in> set nbrs"
  with assms(2) have "fst ` set nbrs \<subseteq> P" unfolding targets_in_def by blast
  moreover from nw have "n \<in> fst ` set nbrs" by (rule image_eqI[rotated]) simp
  ultimately show "n \<in> fst ` set graph" using assms(1) by blast
qed

lemma no_self_loop_edge:
  assumes "no_self_loop graph"
  shows "\<not> edge graph k k w"
proof
  assume "edge graph k k w"
  then obtain nbrs where m: "map_of graph k = Some nbrs" and kw: "(k, w) \<in> set nbrs"
    unfolding edge_def by (cases "map_of graph k") simp_all
  from m have "(k, nbrs) \<in> set graph" by (rule map_of_SomeD)
  with assms have "k \<notin> fst ` set nbrs" unfolding no_self_loop_def by blast
  moreover from kw have "k \<in> fst ` set nbrs" by (rule image_eqI[rotated]) simp
  ultimately show False by contradiction
qed

text \<open>
  Claim C10. In a graph returned by \<open>build_graph\<close> every edge target is a key, the
  keys being the points; so the search of \<open>get_max_steps\<close> from any point never raises
  KeyError.
\<close>

theorem build_graph_closed:
  assumes "build_graph grid points p = Inr graph"
  shows "closed graph \<and> fst ` set graph = set points \<and>
         (\<forall>start finish. start \<in> set points \<longrightarrow>
            get_max_steps graph start finish \<noteq> Inl KeyError)"
proof -
  note inv = build_graph_invariants[OF assms]
  from inv(1,2) have c: "closed graph" by (rule targets_in_closed)
  have "get_max_steps graph start finish \<noteq> Inl KeyError" if "start \<in> set points"
    for start finish
  proof -
    from that inv(1) have "start \<in> fst ` set graph" by simp
    with dfs_no_key_error(1)[OF c, of start finish "{}"]
    have "dfs graph start finish {} \<noteq> Inl KeyError" by simp
    then show ?thesis
      by (cases "dfs graph start finish {}")
        (auto simp: get_max_steps_def get_max_steps_run_def)
  qed
  with c inv(1) show ?thesis by blast
qed

text \<open>
  Claim C9. A graph returned by \<open>build_graph\<close>, for any grid and any list of points,
  has no edge from a node to itself.
\<close>

theorem build_graph_no_self_loop:
  assumes "build_graph grid points p = Inr graph"
  shows "\<forall>k w. \<not> edge graph k k w"
  using no_self_loop_edge[OF build_graph_invariants(3)[OF assms]] by blast

text \<open>
  A grid with a cycle that leaves the junction \<open>(1, 3)\<close> and comes back to it without
  meeting another point.
\<close>

definition lasso_grid :: grid where
  "lasso_grid =
     [''###.###'',
      ''#.....#'',
      ''#.#.#.#'',
      ''#.#...#'',
      ''#.#####'']"

section \<open>Two corridors between the same two junctions\<close>

text \<open>
  In this grid the junctions \<open>(1, 1)\<close> and \<open>(4, 3)\<close> are joined by a corridor of 5
  steps (down the left side) and by one of 9 steps (along the top). A dictionary holds one
  weight per pair of nodes, and the walk from a point records the corridor it follows
  first; which one that is depends on the side the corridor leaves the point by. The
  \<^verbatim>\<open>'^'\<close> at \<open>(2, 1)\<close> closes the short corridor, downwards, in part 1 only.
\<close>

definition loop_grid :: grid where
  "loop_grid =
     [''#.#####'',
      ''#.....#'',
      ''#^###.#'',
      ''#.#...#'',
      ''#...###'',
      ''###.###'']"

definition loop_points :: "cell list" where
  "loop_points = [(0, 1), (5, 3), (1, 1), (4, 3)]"

definition loop_graph1 :: graph where
  "loop_graph1 =
     [((0, 1), [((1, 1), 1)]),
      ((5, 3), [((4, 3), 1)]),
      ((1, 1), [((0, 1), 1), ((4, 3), 9)]),
      ((4, 3), [((1, 1), 9), ((5, 3), 1)])]"

definition loop_graph2 :: graph where
  "loop_graph2 =
     [((0, 1), [((1, 1), 1)]),
      ((5, 3), [((4, 3), 1)]),
      ((1, 1), [((0, 1), 1), ((4, 3), 5)]),
      ((4, 3), [((1, 1), 9), ((5, 3), 1)])]"

definition lasso_graph :: graph where
  "lasso_graph =
     [((0, 3), [((1, 3), 1)]),
      ((4, 1), [((1, 3), 5)]),
      ((1, 3), [((0, 3), 1), ((4, 1), 5)])]"

text \<open>
  A walk on the grid under the rules of part 2: a non-empty list of passable cells, each
  an orthogonal neighbour of the one before.
\<close>

fun free_hike :: "grid \<Rightarrow> cell list \<Rightarrow> bool" where
  "free_hike grid [] = False"
| "free_hike grid [c] = passable grid c"
| "free_hike grid (c # d # cs) = (passable grid c \<and> adjacent c d \<and> free_hike grid (d # cs))"

definition loop_hike :: "cell list" where
  "loop_hike =
     [(0, 1), (1, 1), (1, 2), (1, 3), (1, 4), (1, 5), (2, 5), (3, 5), (3, 4), (3, 3),
      (4, 3), (5, 3)]"

lemma loop_grid_points:
  "get_start_finish loop_grid = Inr ((0, 1), (5, 3))"
  "get_option_points loop_grid (0, 1) (5, 3) = Inr loop_points"
  by (simp_all only: loop_points_def) code_simp+

lemma loop_grid_graphs:
  "build_graph loop_grid loop_points 1 = Inr loop_graph1"
  "build_graph loop_grid loop_points 2 = Inr loop_graph2"
  by code_simp+

text \<open>The graph of the grid with the cycle has no self-loop.\<close>

theorem build_graph_no_self_loop_witness:
  "build_graph lasso_grid [(0, 3), (4, 1), (1, 3)] 2 = Inr lasso_graph \<and>
   (\<forall>k w. \<not> edge lasso_graph k k w)"
proof -
  have b: "build_graph lasso_grid [(0, 3), (4, 1), (1, 3)] 2 = Inr lasso_graph"
    by code_simp
  from build_graph_no_self_loop[OF b] b show ?thesis by blast
qed

theorem build_graph_closed_witness:
  "build_graph loop_grid loop_points 1 = Inr loop_graph1 \<and> closed loop_graph1 \<and>
   fst ` set loop_graph1 = set loop_points \<and>
   get_max_steps loop_graph1 (0, 1) (5, 3) \<noteq> Inl KeyError"
proof -
  have "(0, 1) \<in> set loop_points" by (simp add: loop_points_def)
  with build_graph_closed[OF loop_grid_graphs(1)] loop_grid_graphs(1) show ?thesis by blast
qed

text \<open>
  Claim C5 fails on the code. The part 2 graph of the grid above holds the edge from
  \<open>(1, 1)\<close> to \<open>(4, 3)\<close> with weight 5 and the edge back with weight 9, not 5.
\<close>

theorem build_graph_free_asymmetric:
  "get_start_finish loop_grid = Inr ((0, 1), (5, 3)) \<and>
   get_option_points loop_grid (0, 1) (5, 3) = Inr loop_points \<and>
   build_graph loop_grid loop_points 2 = Inr loop_graph2 \<and>
   edge loop_graph2 (1, 1) (4, 3) 5 \<and> \<not> edge loop_graph2 (4, 3) (1, 1) 5 \<and>
   edge loop_graph2 (4, 3) (1, 1) 9"
  using loop_grid_points loop_grid_graphs(2) by (simp add: edge_def loop_graph2_def)

text \<open>
  Claim C6 fails on the code. On the grid above the driver computes 11 for part 1 and 7 for
  part 2, although the grid has a part 2 walk of 11 steps from the entry to the exit that
  visits no cell twice.
\<close>

theorem driver_constrained_exceeds_free:
  "driver loop_grid = Inr (Steps 11, Steps 7) \<and> steps_less (Steps 7) (Steps 11) \<and>
   free_hike loop_grid loop_hike \<and> distinct loop_hike \<and>
   hd loop_hike = (0, 1) \<and> last loop_hike = (5, 3) \<and> int (length loop_hike) - 1 = 11"
proof -
  have "driver loop_grid = Inr (Steps 11, Steps 7)" by code_simp
  moreover have "free_hike loop_grid loop_hike"
    by (simp add: loop_hike_def loop_grid_def passable_def adjacent_def is_valid_loc_def
        cell_at_def py_index_def)
  moreover have "distinct loop_hike" "hd loop_hike = (0, 1)" "last loop_hike = (5, 3)"
    "int (length loop_hike) - 1 = 11"
    by (simp_all add: loop_hike_def)
  ultimately show ?thesis by simp
qed

end
